theory Spec2Isabelle
  imports Main
begin

section \<open>Chrome trace events\<close>

text \<open>
  The importer of \<^verbatim>\<open>static/app/utils/profiling/profile/chromeTraceProfile.tsx\<close>.
  A \<^verbatim>\<open>ChromeTrace.Event\<close> is a record. Numbers are integers here. The fields
  \<^verbatim>\<open>pid\<close> and \<^verbatim>\<open>tid\<close> are tested with \<^verbatim>\<open>typeof ... !== 'number'\<close> by the
  partitioner, so they are optional: \<open>None\<close> stands for a value that is missing or is
  not a number. The fields \<^verbatim>\<open>dur\<close> and \<^verbatim>\<open>tdur\<close> are optional in the declared type.
  The field \<^verbatim>\<open>ts\<close> is a number, as the declared type says; the comparator handed to
  \<^verbatim>\<open>Array.prototype.sort\<close> is only consistent under that reading, so the guard
  \<^verbatim>\<open>typeof firstTimestamp !== 'number'\<close> cannot fire in this model.
  \<^verbatim>\<open>args\<close> is an object: the list of its properties in enumeration order, with
  distinct keys.
\<close>

datatype phase = PhB | PhE | PhX | PhM | PhOther

datatype json =
    JNull
  | JBool bool
  | JNum int
  | JStr string
  | JArr "json list"
  | JObj "(string \<times> json) list"

record event =
  name :: string
  ph :: phase
  ts :: int
  pid :: "int option"
  tid :: "int option"
  args :: "(string \<times> json) list"
  dur :: "int option"
  tdur :: "int option"

datatype error =
    UnsupportedFormat    \<comment> \<open>'Chrometrace object format is not yet supported'\<close>
  | FormatError          \<comment> \<open>'Failed to parse trace input format'\<close>
  | NoEvents             \<comment> \<open>'Profile contains no events'\<close>
  | EmptyProfile         \<comment> \<open>'Profile does not contain any frame events'\<close>
  | NothingToTake        \<comment> \<open>'Nothing to take from begin queue'\<close>
  | UnbalancedStack string  \<comment> \<open>'Cannot leave frame that was never entered, leaving <key>'\<close>
  | TypeError            \<comment> \<open>the runtime's own error: a property read of undefined or null\<close>
  | AccumulatorError string \<comment> \<open>whatever the profile accumulator throws\<close>

subsection \<open>Rendering numbers and JSON values\<close>

text \<open>
  Template literals and \<^verbatim>\<open>JSON.stringify\<close> render a number in decimal (the exponent
  notation of magnitudes from 1e21 on is left out). \<^verbatim>\<open>JSON.stringify\<close> quotes strings
  and escapes the quote and the backslash (control characters are left as they are).
\<close>

fun showNat :: "nat \<Rightarrow> string" where
  "showNat n =
     (if n < 10 then [''0123456789'' ! n]
      else showNat (n div 10) @ [''0123456789'' ! (n mod 10)])"

declare showNat.simps [simp del]

definition showInt :: "int \<Rightarrow> string" where
  "showInt i = (if i < 0 then ''-'' @ showNat (nat (- i)) else showNat (nat i))"

fun intercalate :: "string \<Rightarrow> string list \<Rightarrow> string" where
  "intercalate sep [] = []"
| "intercalate sep [x] = x"
| "intercalate sep (x # y # ys) = x @ sep @ intercalate sep (y # ys)"

definition quote :: "string \<Rightarrow> string" where
  "quote s =
     [CHR 0x22] @
     concat (map (\<lambda>c. if c = CHR 0x22 \<or> c = CHR 0x5C then [CHR 0x5C, c] else [c]) s) @
     [CHR 0x22]"

fun stringify :: "json \<Rightarrow> string" where
  "stringify JNull = ''null''"
| "stringify (JBool b) = (if b then ''true'' else ''false'')"
| "stringify (JNum n) = showInt n"
| "stringify (JStr s) = quote s"
| "stringify (JArr xs) = ''['' @ intercalate '','' (map stringify xs) @ '']''"
| "stringify (JObj kvs) =
     ''{'' @ intercalate '','' (map (\<lambda>kv. quote (fst kv) @ '':'' @ stringify (snd kv)) kvs) @ ''}''"

subsection \<open>Frame identity\<close>

text \<open>
  \<^verbatim>\<open>createFrameInfoFromEvent\<close>: the key is \<^verbatim>\<open>JSON.stringify(event.args)\<close>, the name is
  \<^verbatim>\<open>`${event?.name || 'Unknown'} ${key}`.trim()\<close>. A \<^verbatim>\<open>Frame\<close> is built from that
  pair; its weights live in the profile accumulator.
\<close>

record frame =
  key :: string
  frameName :: string

definition isSpace :: "char \<Rightarrow> bool" where
  "isSpace c = (c \<in> set [CHR 0x20, CHR 0x09, CHR 0x0A, CHR 0x0B, CHR 0x0C, CHR 0x0D])"

definition trim :: "string \<Rightarrow> string" where
  "trim s = rev (dropWhile isSpace (rev (dropWhile isSpace s)))"

definition createFrameInfoFromEvent :: "event \<Rightarrow> frame" where
  "createFrameInfoFromEvent event =
     (let k = stringify (JObj (args event))
      in \<lparr>key = k,
          frameName = trim ((if name event = [] then ''Unknown'' else name event) @ '' '' @ k)\<rparr>)"

subsection \<open>Queue selection\<close>

datatype queue = QB | QE

definition chronologicalSort :: "event \<Rightarrow> event \<Rightarrow> int" where
  "chronologicalSort a b = (if ts a < ts b then - 1 else if ts a > ts b then 1 else 0)"

text \<open>
  \<^verbatim>\<open>Array.prototype.sort\<close> is stable; for a consistent comparator its result is the
  one of a stable insertion sort.
\<close>

fun insertBy :: "('a \<Rightarrow> 'a \<Rightarrow> int) \<Rightarrow> 'a \<Rightarrow> 'a list \<Rightarrow> 'a list" where
  "insertBy cmp x [] = [x]"
| "insertBy cmp x (y # ys) = (if cmp x y \<le> 0 then x # y # ys else y # insertBy cmp x ys)"

definition sortBy :: "('a \<Rightarrow> 'a \<Rightarrow> int) \<Rightarrow> 'a list \<Rightarrow> 'a list" where
  "sortBy cmp xs = foldr (insertBy cmp) xs []"

definition getNextQueue :: "event list \<Rightarrow> event list \<Rightarrow> error + queue" where
  "getNextQueue beginQ endQ =
     (if beginQ = [] \<and> endQ = [] then Inl NoEvents
      else case endQ of
        [] \<Rightarrow> Inr QB
      | nextEnd # _ \<Rightarrow>
          (case beginQ of
             [] \<Rightarrow> Inr QE
           | nextBegin # _ \<Rightarrow>
               if ts nextBegin < ts nextEnd then Inr QB
               else if ts nextEnd < ts nextBegin then Inr QE
               else Inr QB))"

subsection \<open>The event normalizer\<close>

text \<open>
  The first loop of \<^verbatim>\<open>buildProfile\<close>: metadata events set the labels, begin and end
  events go to their queues, a complete event with a duration becomes a begin and an
  end event. \<open>argsName\<close> is \<^verbatim>\<open>event.args.name\<close> when it is a string.
\<close>

record queues =
  processName :: string
  threadName :: string
  beginQueue :: "event list"
  endQueue :: "event list"

definition argsName :: "event \<Rightarrow> string option" where
  "argsName event = (case map_of (args event) ''name'' of Some (JStr s) \<Rightarrow> Some s | _ \<Rightarrow> None)"

definition collectEvent :: "string \<Rightarrow> string \<Rightarrow> 'a queues_scheme \<Rightarrow> event \<Rightarrow> 'a queues_scheme" where
  "collectEvent processId threadId q event =
     (if ph event = PhM \<and> name event = ''thread_name'' \<and> argsName event \<noteq> None
        then q\<lparr>threadName := the (argsName event) @ '' ('' @ threadId @ '')''\<rparr>
      else if ph event = PhM \<and> name event = ''process_name'' \<and> argsName event \<noteq> None
        then q\<lparr>processName := the (argsName event) @ '' ('' @ processId @ '')''\<rparr>
      else if ph event = PhB then q\<lparr>beginQueue := beginQueue q @ [event]\<rparr>
      else if ph event = PhE then q\<lparr>endQueue := endQueue q @ [event]\<rparr>
      else if ph event = PhX \<and> (dur event \<noteq> None \<or> tdur event \<noteq> None)
        then q\<lparr>beginQueue := beginQueue q @ [event\<lparr>ph := PhB\<rparr>],
               endQueue := endQueue q @
                 [event\<lparr>ph := PhE,
                        ts := ts event +
                          (case dur event of Some d \<Rightarrow> d
                           | None \<Rightarrow> (case tdur event of Some t \<Rightarrow> t | None \<Rightarrow> 0))\<rparr>]\<rparr>
      else q)"

definition timelineEvents :: "event list \<Rightarrow> event list" where
  "timelineEvents events =
     filter (\<lambda>e. ph e = PhB \<or> ph e = PhE \<or> ph e = PhX \<or> ph e = PhM) events"

definition normalizeBucket :: "string \<Rightarrow> string \<Rightarrow> event list \<Rightarrow> queues" where
  "normalizeBucket processId threadId events =
     foldl (collectEvent processId threadId)
       \<lparr>processName = ''pid ('' @ processId @ '')'',
        threadName = ''tid ('' @ threadId @ '')'',
        beginQueue = [], endQueue = []\<rparr>
       (timelineEvents events)"

subsection \<open>The profile accumulator\<close>

text \<open>
  \<^verbatim>\<open>EventedProfile\<close> and \<^verbatim>\<open>Frame\<close> are imported classes; the builder uses the
  constructor, \<^verbatim>\<open>enterFrame\<close>, \<^verbatim>\<open>leaveFrame\<close>, \<^verbatim>\<open>build\<close> and reads
  \<^verbatim>\<open>frame.totalWeight\<close>. They are a parameter of the builder: a state \<open>'p\<close> that
  holds the profile and the weights of its frames, and operations on it that may throw.
  The builder also keeps the list of the calls it has issued.
\<close>

record 'p accumulator =
  newProfile :: "string \<Rightarrow> 'p"
  enterFrame :: "frame \<Rightarrow> int \<Rightarrow> 'p \<Rightarrow> error + 'p"
  leaveFrame :: "frame \<Rightarrow> int \<Rightarrow> 'p \<Rightarrow> error + 'p"
  totalWeight :: "'p \<Rightarrow> frame \<Rightarrow> int"
  build :: "'p \<Rightarrow> 'p"

datatype call = Enter frame int | Leave frame int

record 'p state = queues +
  stack :: "event list"    \<comment> \<open>the top of the stack is the head of the list\<close>
  frameCache :: "string \<rightharpoonup> frame"
  profile :: 'p
  calls :: "call list"

subsection \<open>The merge loop\<close>

text \<open>
  The scan of the end branch: \<^verbatim>\<open>for (let i = 1; i < endQueue.length; i++)\<close>, run on
  the end queue after \<^verbatim>\<open>endQueue.shift()\<close> has removed its head. It returns the index
  at which the loop found the key of the stack top, if it did.
\<close>

function scanSiblings :: "string \<Rightarrow> event list \<Rightarrow> nat \<Rightarrow> nat option" where
  "scanSiblings topKey q i =
     (if i < length q then
        (if ts (q ! i) > ts (q ! 0) then None
         else if topKey = key (createFrameInfoFromEvent (q ! i)) then Some i
         else scanSiblings topKey q (Suc i))
      else None)"
  by pat_completeness auto
termination
  by (relation "measure (\<lambda>(k, q, i). length q - i)") auto

declare scanSiblings.simps [simp del]

text \<open>
  \<open>beginStep\<close> and \<open>endStep\<close> are the two branches of the body of the
  \<^verbatim>\<open>while\<close> loop, \<open>mergeStep\<close> is one iteration and \<open>mergeLoop\<close> the loop. Each
  iteration removes one event from a queue, so the number of \<open>pending\<close> events
  decreases and the loop terminates.
\<close>

definition beginStep :: "'p accumulator \<Rightarrow> int \<Rightarrow> 'p state \<Rightarrow> error + 'p state" where
  "beginStep A firstTimestamp s =
     (case beginQueue s of
        [] \<Rightarrow> Inl NothingToTake
      | item # rest \<Rightarrow>
          (let frameInfo = createFrameInfoFromEvent item;
               cache = (if frameCache s (key frameInfo) = None
                        then (frameCache s)(key frameInfo \<mapsto> frameInfo) else frameCache s);
               fr = the (cache (key frameInfo))
           in case enterFrame A fr (ts item - firstTimestamp) (profile s) of
                Inl err \<Rightarrow> Inl err
              | Inr p \<Rightarrow>
                  Inr (s\<lparr>beginQueue := rest, frameCache := cache, profile := p,
                         calls := calls s @ [Enter fr (ts item - firstTimestamp)],
                         stack := item # stack s\<rparr>)))"

definition endStep :: "'p accumulator \<Rightarrow> int \<Rightarrow> 'p state \<Rightarrow> error + 'p state" where
  "endStep A firstTimestamp s =
     (case endQueue s of
        [] \<Rightarrow> Inl TypeError
      | item # rest \<Rightarrow>
          (case stack s of
             [] \<Rightarrow> Inl TypeError
           | topEvent # below \<Rightarrow>
               (let topFrameInfo = createFrameInfoFromEvent topEvent;
                    found = scanSiblings (key topFrameInfo) rest 1;
                    rest' = (case found of None \<Rightarrow> rest
                             | Some i \<Rightarrow> rest[0 := rest ! i, i := rest ! 0]);
                    frameInfo = (case found of None \<Rightarrow> createFrameInfoFromEvent item
                                 | Some i \<Rightarrow> createFrameInfoFromEvent (rest ! i))
                in case frameCache s (key frameInfo) of
                     None \<Rightarrow> Inl (UnbalancedStack (key frameInfo))
                   | Some fr \<Rightarrow>
                       (case leaveFrame A fr (ts item - firstTimestamp) (profile s) of
                          Inl err \<Rightarrow> Inl err
                        | Inr p \<Rightarrow>
                            Inr (s\<lparr>endQueue := rest', profile := p,
                                   calls := calls s @ [Leave fr (ts item - firstTimestamp)],
                                   stack := below\<rparr>)))))"

definition mergeStep :: "'p accumulator \<Rightarrow> int \<Rightarrow> 'p state \<Rightarrow> error + 'p state" where
  "mergeStep A firstTimestamp s =
     (case getNextQueue (beginQueue s) (endQueue s) of
        Inl err \<Rightarrow> Inl err
      | Inr QB \<Rightarrow> beginStep A firstTimestamp s
      | Inr QE \<Rightarrow> endStep A firstTimestamp s)"

definition pending :: "'p state \<Rightarrow> nat" where
  "pending s = length (beginQueue s) + length (endQueue s)"

lemma beginStep_pending:
  "beginStep A t s = Inr s' \<Longrightarrow> pending s' < pending s"
  by (auto simp: beginStep_def pending_def Let_def split: list.splits sum.splits)

lemma endStep_pending:
  "endStep A t s = Inr s' \<Longrightarrow> pending s' < pending s"
  by (auto simp: endStep_def pending_def Let_def
           split: list.splits sum.splits option.splits)

lemma mergeStep_pending:
  "mergeStep A t s = Inr s' \<Longrightarrow> pending s' < pending s"
  by (auto simp: mergeStep_def split: sum.splits queue.splits
           dest: beginStep_pending endStep_pending)

function mergeLoop :: "'p accumulator \<Rightarrow> int \<Rightarrow> 'p state \<Rightarrow> error + 'p state" where
  "mergeLoop A firstTimestamp s =
     (if beginQueue s \<noteq> [] \<or> endQueue s \<noteq> [] then
        (case mergeStep A firstTimestamp s of
           Inl err \<Rightarrow> Inl err
         | Inr s' \<Rightarrow> mergeLoop A firstTimestamp s')
      else Inr s)"
  by pat_completeness auto
termination
  by (relation "measure (\<lambda>(A, t, s). pending s)") (auto dest: mergeStep_pending)

declare mergeLoop.simps [simp del]

subsection \<open>Closing the leftover frames\<close>

function closeLeftover :: "'p accumulator \<Rightarrow> 'p state \<Rightarrow> error + 'p state" where
  "closeLeftover A s =
     (case stack s of
        [] \<Rightarrow> Inr s
      | item # below \<Rightarrow>
          (let frameInfo = createFrameInfoFromEvent item
           in case frameCache s (key frameInfo) of
                None \<Rightarrow> Inl (UnbalancedStack (key frameInfo))
              | Some fr \<Rightarrow>
                  (case leaveFrame A fr (totalWeight A (profile s) fr) (profile s) of
                     Inl err \<Rightarrow> Inl err
                   | Inr p \<Rightarrow>
                       closeLeftover A
                         (s\<lparr>stack := below, profile := p,
                            calls := calls s @ [Leave fr (totalWeight A (profile s) fr)]\<rparr>))))"
  by pat_completeness auto
termination
  by (relation "measure (\<lambda>(A, s). length (stack s))") auto

declare closeLeftover.simps [simp del]

subsection \<open>buildProfile\<close>

text \<open>
  \<open>buildState\<close> is \<^verbatim>\<open>buildProfile\<close> up to the call of \<^verbatim>\<open>profile.build()\<close>: it
  returns the builder's state at that call. \<open>buildProfile\<close> is the whole function.
\<close>

definition startState ::
  "'p accumulator \<Rightarrow> queues \<Rightarrow> event list \<Rightarrow> event list \<Rightarrow> 'p state" where
  "startState A q beginQ endQ =
     \<lparr>processName = processName q, threadName = threadName q,
      beginQueue = beginQ, endQueue = endQ,
      stack = [], frameCache = Map.empty,
      profile = newProfile A (processName q @ '': '' @ threadName q),
      calls = []\<rparr>"

definition buildState ::
  "'p accumulator \<Rightarrow> string \<Rightarrow> string \<Rightarrow> event list \<Rightarrow> error + 'p state" where
  "buildState A processId threadId events =
     (let q = normalizeBucket processId threadId events;
          beginQ = sortBy chronologicalSort (beginQueue q);
          endQ = sortBy chronologicalSort (endQueue q)
      in case beginQ of
           [] \<Rightarrow> Inl EmptyProfile
         | firstBegin # _ \<Rightarrow>
             (case mergeLoop A (ts firstBegin) (startState A q beginQ endQ) of
                Inl err \<Rightarrow> Inl err
              | Inr s \<Rightarrow> closeLeftover A s))"

definition buildProfile ::
  "'p accumulator \<Rightarrow> string \<Rightarrow> string \<Rightarrow> event list \<Rightarrow> error + 'p" where
  "buildProfile A processId threadId events =
     (case buildState A processId threadId events of
        Inl err \<Rightarrow> Inl err
      | Inr s \<Rightarrow> Inr (build A (profile s)))"

subsection \<open>The event partitioner\<close>

text \<open>
  A JavaScript object keyed by numbers is the list of its properties in insertion
  order: assigning to a key that exists replaces the value in place, assigning to a new
  key appends. \<^verbatim>\<open>for ... in\<close> does not enumerate in insertion order: the keys that are
  array indices (the integers from 0 to 2^32 - 2) come first, in ascending numeric
  order, and the other keys follow in insertion order.
\<close>

type_synonym 'v object = "(int \<times> 'v) list"

fun setProp :: "'v object \<Rightarrow> int \<Rightarrow> 'v \<Rightarrow> 'v object" where
  "setProp [] k v = [(k, v)]"
| "setProp ((k', v') # obj) k v = (if k' = k then (k, v) # obj else (k', v') # setProp obj k v)"

definition isArrayIndex :: "int \<Rightarrow> bool" where
  "isArrayIndex k = (0 \<le> k \<and> k < 4294967295)"

definition forInOrder :: "'v object \<Rightarrow> 'v object" where
  "forInOrder obj =
     sort_key fst (filter (\<lambda>kv. isArrayIndex (fst kv)) obj) @
     filter (\<lambda>kv. \<not> isArrayIndex (fst kv)) obj"

definition addEvent :: "event list object object \<Rightarrow> event \<Rightarrow> event list object object" where
  "addEvent collections event =
     (case pid event of
        None \<Rightarrow> collections
      | Some p \<Rightarrow>
          (case tid event of
             None \<Rightarrow> collections
           | Some t \<Rightarrow>
               (let c1 = (if map_of collections p = None then setProp collections p []
                          else collections);
                    threads = the (map_of c1 p);
                    threads1 = (if map_of threads t = None then setProp threads t []
                                else threads)
                in setProp c1 p (setProp threads1 t (the (map_of threads1 t) @ [event])))))"

definition splitEventsByProcessAndTraceId :: "event list \<Rightarrow> event list object object" where
  "splitEventsByProcessAndTraceId trace = foldl addEvent [] trace"

subsection \<open>The profile group\<close>

record 'p profileGroup =
  groupName :: string
  traceID :: string
  activeProfileIndex :: nat
  profiles :: "'p list"

fun buildThreads ::
  "'p accumulator \<Rightarrow> string \<Rightarrow> event list object \<Rightarrow> 'p list \<Rightarrow> error + 'p list" where
  "buildThreads A processId [] acc = Inr acc"
| "buildThreads A processId ((t, events) # rest) acc =
     (case buildProfile A processId (showInt t) events of
        Inl err \<Rightarrow> Inl err
      | Inr p \<Rightarrow> buildThreads A processId rest (acc @ [p]))"

fun buildProcesses ::
  "'p accumulator \<Rightarrow> event list object object \<Rightarrow> 'p list \<Rightarrow> error + 'p list" where
  "buildProcesses A [] acc = Inr acc"
| "buildProcesses A ((p, threads) # rest) acc =
     (case buildThreads A (showInt p) (forInOrder threads) acc of
        Inl err \<Rightarrow> Inl err
      | Inr acc' \<Rightarrow> buildProcesses A rest acc')"

definition parseChromeTraceArrayFormat ::
  "'p accumulator \<Rightarrow> event list \<Rightarrow> error + 'p profileGroup" where
  "parseChromeTraceArrayFormat A input =
     (case buildProcesses A (forInOrder (splitEventsByProcessAndTraceId input)) [] of
        Inl err \<Rightarrow> Inl err
      | Inr ps \<Rightarrow>
          Inr \<lparr>groupName = ''chrometrace'', traceID = [], activeProfileIndex = 0,
               profiles = ps\<rparr>)"

subsection \<open>The format detector\<close>

text \<open>
  The parameter of \<^verbatim>\<open>importChromeTrace\<close> is declared
  \<^verbatim>\<open>string | ChromeTrace.ProfileType\<close>: a string, an array of events, or an object.
  An object is given by the names of the properties the \<^verbatim>\<open>in\<close> operator finds on
  it, with or without \<^verbatim>\<open>traceEvents\<close> among them; an array has no such property.
  \<^verbatim>\<open>null\<close> and the primitive values other than strings are not values of the
  declared type and have no constructor.
\<close>

datatype input =
    InString string
  | InArray "event list"
  | InObject "string list"




subsection \<open>The accumulator, modelled from the spec\<close>

text \<open>
  The state of the accumulator modelled below: the label of the profile, the time of
  the last call, the open frames, and the total weight of each frame by key.
\<close>

record sampleProfile =
  label :: string
  lastValue :: int
  openFrames :: "frame list"
  weights :: "(string \<times> int) list"

definition addWeight :: "int \<Rightarrow> frame list \<Rightarrow> (string \<times> int) list \<Rightarrow> (string \<times> int) list" where
  "addWeight delta frames ws =
     foldl (\<lambda>w f. (key f, (case map_of w (key f) of None \<Rightarrow> 0 | Some x \<Rightarrow> x) + delta) #
                   filter (\<lambda>kw. fst kw \<noteq> key f) w) ws frames"

text \<open>
  Modelled from the spec: the profile accumulator, that is, the imported classes
  \<^verbatim>\<open>EventedProfile\<close> and \<^verbatim>\<open>Frame\<close>, whose code is not among the sources. The
  spec says the profile accumulates weights through ordered enter and leave calls at
  relative timestamps, and that a complete event of duration 10 gives its frame the
  total weight 10: a call at a time adds the time elapsed since the last call to the
  total weight of every open frame. Leaving with no open frame throws. The builder is
  run with it on concrete traces, and the statements about weights are about it.
\<close>

definition sampleAccumulator :: "sampleProfile accumulator" where
  "sampleAccumulator =
     \<lparr>newProfile = (\<lambda>n. \<lparr>label = n, lastValue = 0, openFrames = [], weights = []\<rparr>),
      enterFrame = (\<lambda>f at p.
         Inr (p\<lparr>weights := addWeight (at - lastValue p) (openFrames p) (weights p),
                openFrames := f # openFrames p, lastValue := at\<rparr>)),
      leaveFrame = (\<lambda>f at p.
         if openFrames p = [] then Inl (AccumulatorError ''Unbalanced stack'')
         else Inr (p\<lparr>weights := addWeight (at - lastValue p) (openFrames p) (weights p),
                     openFrames := tl (openFrames p), lastValue := at\<rparr>)),
      totalWeight = (\<lambda>p f. case map_of (weights p) (key f) of None \<Rightarrow> 0 | Some x \<Rightarrow> x),
      build = (\<lambda>p. p)\<rparr>"

subsection \<open>Concrete traces\<close>

definition traceEvent :: "string \<Rightarrow> phase \<Rightarrow> int \<Rightarrow> (string \<times> json) list \<Rightarrow> event" where
  "traceEvent n p t a =
     \<lparr>name = n, ph = p, ts = t, pid = Some 1, tid = Some 1, args = a,
      dur = None, tdur = None\<rparr>"

definition argsH :: "(string \<times> json) list" where
  "argsH = [(''fn'', JStr ''h'')]"

definition argsG :: "(string \<times> json) list" where
  "argsG = [(''fn'', JStr ''g'')]"

definition frameH :: frame where
  "frameH = createFrameInfoFromEvent (traceEvent ''h'' PhB 0 argsH)"

definition frameG :: frame where
  "frameG = createFrameInfoFromEvent (traceEvent ''g'' PhB 0 argsG)"

text \<open>A bucket that lists its end event first; all three events share a timestamp.\<close>

definition tieTrace :: "event list" where
  "tieTrace =
     [traceEvent ''g'' PhE 3 argsG, traceEvent ''h'' PhB 3 argsH, traceEvent ''g'' PhB 3 argsG]"

definition tieState :: "sampleProfile state" where
  "tieState =
     startState sampleAccumulator (normalizeBucket ''1'' ''1'' tieTrace)
       [traceEvent ''h'' PhB 3 argsH, traceEvent ''g'' PhB 3 argsG]
       [traceEvent ''g'' PhE 3 argsG]"

definition earlyEndTrace :: "event list" where
  "earlyEndTrace = [traceEvent ''h'' PhB 5 argsH, traceEvent ''g'' PhE 3 argsG]"

definition earlyEndState :: "sampleProfile state" where
  "earlyEndState =
     startState sampleAccumulator (normalizeBucket ''1'' ''1'' earlyEndTrace)
       [traceEvent ''h'' PhB 5 argsH] [traceEvent ''g'' PhE 3 argsG]"

definition loneEnd :: event where
  "loneEnd = traceEvent ''g'' PhE 3 argsG"

definition openH :: event where
  "openH = traceEvent ''h'' PhB 0 argsH"

definition enteredH :: sampleProfile where
  "enteredH = \<lparr>label = ''pid (1): tid (1)'', lastValue = 0, openFrames = [frameH], weights = []\<rparr>"

definition completeF :: event where
  "completeF = (traceEvent ''f'' PhX 0 [])\<lparr>dur := Some 10\<rparr>"

definition siblingTrace :: "event list" where
  "siblingTrace =
     [traceEvent ''h'' PhB 0 argsH, traceEvent ''g'' PhB 1 argsG,
      traceEvent ''h'' PhE 5 argsH, traceEvent ''g'' PhE 5 argsG]"

text \<open>The builder's state on \<open>siblingTrace\<close> after its two begin steps.\<close>

definition siblingState :: "sampleProfile state" where
  "siblingState =
     \<lparr>processName = ''pid (1)'', threadName = ''tid (1)'',
      beginQueue = [],
      endQueue = [traceEvent ''h'' PhE 5 argsH, traceEvent ''g'' PhE 5 argsG],
      stack = [traceEvent ''g'' PhB 1 argsG, traceEvent ''h'' PhB 0 argsH],
      frameCache = [key frameH \<mapsto> frameH, key frameG \<mapsto> frameG],
      profile = \<lparr>label = ''pid (1): tid (1)'', lastValue = 1, openFrames = [frameG, frameH],
                 weights = [(key frameH, 1)]\<rparr>,
      calls = [Enter frameH 0, Enter frameG 1]\<rparr>"

text \<open>The same state with a third end event between the two.\<close>

definition siblingRunState :: "sampleProfile state" where
  "siblingRunState =
     siblingState\<lparr>endQueue :=
       [traceEvent ''h'' PhE 5 argsH, traceEvent ''x'' PhE 5 [], traceEvent ''g'' PhE 5 argsG]\<rparr>"

definition callsOf :: "error + 'p state \<Rightarrow> error + call list" where
  "callsOf r = (case r of Inl err \<Rightarrow> Inl err | Inr s \<Rightarrow> Inr (calls s))"

definition endQueueOf :: "error + 'p state \<Rightarrow> error + event list" where
  "endQueueOf r = (case r of Inl err \<Rightarrow> Inl err | Inr s \<Rightarrow> Inr (endQueue s))"

subsection \<open>Counting the calls\<close>

fun isEnter :: "call \<Rightarrow> bool" where
  "isEnter (Enter _ _) = True"
| "isEnter (Leave _ _) = False"

definition enterCount :: "call list \<Rightarrow> nat" where
  "enterCount cs = length (filter isEnter cs)"

definition leaveCount :: "call list \<Rightarrow> nat" where
  "leaveCount cs = length (filter (\<lambda>c. \<not> isEnter c) cs)"

definition entered :: "'p state \<Rightarrow> bool" where
  "entered s = (\<forall>e \<in> set (stack s). frameCache s (key (createFrameInfoFromEvent e)) \<noteq> None)"

definition balanced :: "'p state \<Rightarrow> bool" where
  "balanced s = (enterCount (calls s) = leaveCount (calls s) + length (stack s))"

fun callFrame :: "call \<Rightarrow> frame" where
  "callFrame (Enter f _) = f"
| "callFrame (Leave f _) = f"

fun callAt :: "call \<Rightarrow> int" where
  "callAt (Enter _ at) = at"
| "callAt (Leave _ at) = at"

definition enterLog :: "call list \<Rightarrow> (string \<times> int) list" where
  "enterLog cs = map (\<lambda>c. (key (callFrame c), callAt c)) (filter isEnter cs)"

definition beginLog :: "int \<Rightarrow> event list \<Rightarrow> (string \<times> int) list" where
  "beginLog firstTimestamp beginQ =
     map (\<lambda>b. (key (createFrameInfoFromEvent b), ts b - firstTimestamp)) beginQ"

definition entersOf :: "frame \<Rightarrow> call list \<Rightarrow> nat" where
  "entersOf f cs = length (filter (\<lambda>c. isEnter c \<and> callFrame c = f) cs)"

definition leavesOf :: "frame \<Rightarrow> call list \<Rightarrow> nat" where
  "leavesOf f cs = length (filter (\<lambda>c. \<not> isEnter c \<and> callFrame c = f) cs)"

definition countsOf :: "frame \<Rightarrow> error + 'p state \<Rightarrow> error + nat \<times> nat" where
  "countsOf f r =
     (case r of Inl err \<Rightarrow> Inl err | Inr s \<Rightarrow> Inr (entersOf f (calls s), leavesOf f (calls s)))"


subsection \<open>More concrete traces\<close>

definition nestedTrace :: "event list" where
  "nestedTrace =
     [traceEvent ''h'' PhB 0 argsH, traceEvent ''g'' PhB 1 argsG,
      traceEvent ''g'' PhE 2 argsG, traceEvent ''h'' PhE 5 argsH]"




definition doubleEndTrace :: "event list" where
  "doubleEndTrace =
     [traceEvent ''h'' PhB 0 argsH, traceEvent ''g'' PhB 1 argsG,
      traceEvent ''g'' PhE 2 argsG, traceEvent ''g'' PhE 3 argsG]"

definition tailTrace :: "event list" where
  "tailTrace =
     [traceEvent ''h'' PhB 0 argsH, traceEvent ''g'' PhB 3 argsG, traceEvent ''g'' PhE 4 argsG]"


definition tailProfile :: sampleProfile where
  "tailProfile =
     \<lparr>label = ''pid (1): tid (1)'', lastValue = 4, openFrames = [],
      weights = [(key frameH, 4), (key frameG, 1)]\<rparr>"

definition doubleEndProfile :: sampleProfile where
  "doubleEndProfile =
     \<lparr>label = ''pid (1): tid (1)'', lastValue = 3, openFrames = [],
      weights = [(key frameH, 3), (key frameG, 1)]\<rparr>"

subsection \<open>The partition, described from the trace\<close>

text \<open>
  What the partitioner computes, said without the loop: \<open>firstSeen\<close> keeps the first
  occurrence of each key, \<open>pidsOf\<close> and \<open>tidsOf\<close> are the process ids and the thread
  ids of the events with a numeric \<open>pid\<close> and \<open>tid\<close> in the order of their first
  occurrence (the discovery order), \<open>bucket\<close> is the events of one pair, and
  \<open>discovered\<close> is the nested object in insertion order. \<open>enumerationOrder\<close> is the
  order in which \<^verbatim>\<open>for ... in\<close> visits keys inserted in a given order, and
  \<open>bucketOrder\<close> the order in which the two nested loops visit the buckets.
\<close>

definition firstSeen :: "int list \<Rightarrow> int list" where
  "firstSeen ks = rev (remdups (rev ks))"

definition pidsOf :: "event list \<Rightarrow> int list" where
  "pidsOf trace = firstSeen (map (\<lambda>e. the (pid e)) (filter (\<lambda>e. pid e \<noteq> None \<and> tid e \<noteq> None) trace))"

definition tidsOf :: "event list \<Rightarrow> int \<Rightarrow> int list" where
  "tidsOf trace p = firstSeen (map (\<lambda>e. the (tid e)) (filter (\<lambda>e. pid e = Some p \<and> tid e \<noteq> None) trace))"

definition bucket :: "event list \<Rightarrow> int \<Rightarrow> int \<Rightarrow> event list" where
  "bucket trace p t = filter (\<lambda>e. pid e = Some p \<and> tid e = Some t) trace"

definition discovered :: "event list \<Rightarrow> event list object object" where
  "discovered trace =
     map (\<lambda>p. (p, map (\<lambda>t. (t, bucket trace p t)) (tidsOf trace p))) (pidsOf trace)"

definition enumerationOrder :: "int list \<Rightarrow> int list" where
  "enumerationOrder ks = sort (filter isArrayIndex ks) @ filter (\<lambda>k. \<not> isArrayIndex k) ks"

definition bucketOrder :: "event list \<Rightarrow> (int \<times> int) list" where
  "bucketOrder trace =
     concat (map (\<lambda>p. map (\<lambda>t. (p, t)) (enumerationOrder (tidsOf trace p)))
                 (enumerationOrder (pidsOf trace)))"

definition outOfOrderTrace :: "event list" where
  "outOfOrderTrace =
     [(traceEvent ''a'' PhB 0 [])\<lparr>pid := Some 2\<rparr>, (traceEvent ''b'' PhB 0 [])\<lparr>pid := Some 1\<rparr>]"

definition labelsOf :: "error + sampleProfile profileGroup \<Rightarrow> error + string list" where
  "labelsOf r = (case r of Inl err \<Rightarrow> Inl err | Inr g \<Rightarrow> Inr (map label (profiles g)))"

definition outOfOrderGroup :: "sampleProfile profileGroup" where
  "outOfOrderGroup =
     \<lparr>groupName = ''chrometrace'', traceID = [], activeProfileIndex = 0,
      profiles =
        [\<lparr>label = ''pid (1): tid (1)'', lastValue = 0, openFrames = [], weights = [(''{}'', 0)]\<rparr>,
         \<lparr>label = ''pid (2): tid (1)'', lastValue = 0, openFrames = [], weights = [(''{}'', 0)]\<rparr>]\<rparr>"

definition noTid :: event where
  "noTid = (traceEvent ''x'' PhB 7 argsG)\<lparr>tid := None\<rparr>"

section \<open>Properties of queue selection\<close>

lemma getNextQueue_QE_iff:
  "getNextQueue bq eq = Inr QE \<longleftrightarrow> (\<exists>e eq'. eq = e # eq' \<and> (bq = [] \<or> ts e < ts (hd bq)))"
  by (auto simp: getNextQueue_def split: list.splits)

text \<open>
  C2. When both queues are non-empty, \<open>getNextQueue\<close> selects the end queue exactly
  when its head is strictly earlier than the head of the begin queue, and the begin queue
  otherwise, so on a tie the begin queue. When the begin queue starts with two events
  that have the timestamp of the head of the end queue, the merge loop takes two begin
  steps first: both begin events are dequeued and pushed, and the end queue is untouched.
\<close>

theorem getNextQueue_prefers_begin_on_tie:
  "getNextQueue (b # bq) (e # eq) = Inr (if ts e < ts b then QE else QB) \<and>
   (beginQueue s = b1 # b2 # bq \<and> endQueue s = e # eq \<and> ts b1 = ts e \<and> ts b2 = ts e \<longrightarrow>
      mergeLoop A t s =
        (case beginStep A t s of
           Inl err \<Rightarrow> Inl err
         | Inr s1 \<Rightarrow>
             (case beginStep A t s1 of
                Inl err \<Rightarrow> Inl err
              | Inr s2 \<Rightarrow> mergeLoop A t s2)) \<and>
      (\<forall>s1 s2. beginStep A t s = Inr s1 \<and> beginStep A t s1 = Inr s2 \<longrightarrow>
         beginQueue s2 = bq \<and> endQueue s2 = e # eq \<and> stack s2 = b2 # b1 # stack s))"
proof -
  have sel: "getNextQueue (b # bq) (e # eq) = Inr (if ts e < ts b then QE else QB)"
    by (simp add: getNextQueue_def)
  have step: "mergeLoop A t s =
        (case beginStep A t s of
           Inl err \<Rightarrow> Inl err
         | Inr s1 \<Rightarrow>
             (case beginStep A t s1 of
                Inl err \<Rightarrow> Inl err
              | Inr s2 \<Rightarrow> mergeLoop A t s2))"
    if h: "beginQueue s = b1 # b2 # bq" "endQueue s = e # eq" "ts b1 = ts e" "ts b2 = ts e"
  proof -
    have 1: "mergeStep A t s = beginStep A t s"
      using h by (simp add: mergeStep_def getNextQueue_def)
    have 2: "mergeStep A t s1 = beginStep A t s1" if "beginStep A t s = Inr s1" for s1
    proof -
      from that h have "beginQueue s1 = b2 # bq" "endQueue s1 = e # eq"
        by (auto simp: beginStep_def Let_def split: sum.splits)
      then show ?thesis using h by (simp add: mergeStep_def getNextQueue_def)
    qed
    have 3: "beginQueue s1 \<noteq> [] \<or> endQueue s1 \<noteq> []" if "beginStep A t s = Inr s1" for s1
      using that h by (auto simp: beginStep_def Let_def split: sum.splits)
    have ne: "beginQueue s \<noteq> [] \<or> endQueue s \<noteq> []" using h by simp
    show ?thesis
    proof (cases "beginStep A t s")
      case (Inl err)
      then show ?thesis using 1 ne by (subst mergeLoop.simps) simp
    next
      case (Inr s1)
      have "mergeLoop A t s = mergeLoop A t s1"
        using Inr 1 ne by (subst mergeLoop.simps) simp
      also have "\<dots> = (case beginStep A t s1 of Inl err \<Rightarrow> Inl err
                        | Inr s2 \<Rightarrow> mergeLoop A t s2)"
        using 2 [OF Inr] 3 [OF Inr] by (subst mergeLoop.simps) simp
      finally show ?thesis using Inr by simp
    qed
  qed
  have q: "beginQueue s2 = bq \<and> endQueue s2 = e # eq \<and> stack s2 = b2 # b1 # stack s"
    if "beginQueue s = b1 # b2 # bq" "endQueue s = e # eq"
       "beginStep A t s = Inr s1" "beginStep A t s1 = Inr s2" for s1 s2
    using that by (auto simp: beginStep_def Let_def split: sum.splits)
  show ?thesis using sel step q by blast
qed

theorem getNextQueue_prefers_begin_on_tie_witness:
  "beginQueue tieState = [traceEvent ''h'' PhB 3 argsH, traceEvent ''g'' PhB 3 argsG] \<and>
   endQueue tieState = [traceEvent ''g'' PhE 3 argsG] \<and>
   ts (traceEvent ''h'' PhB 3 argsH) = ts (traceEvent ''g'' PhE 3 argsG) \<and>
   ts (traceEvent ''g'' PhB 3 argsG) = ts (traceEvent ''g'' PhE 3 argsG) \<and>
   mergeLoop sampleAccumulator 3 tieState =
     (case beginStep sampleAccumulator 3 tieState of
        Inl err \<Rightarrow> Inl err
      | Inr s1 \<Rightarrow>
          (case beginStep sampleAccumulator 3 s1 of
             Inl err \<Rightarrow> Inl err
           | Inr s2 \<Rightarrow> mergeLoop sampleAccumulator 3 s2)) \<and>
   callsOf (buildState sampleAccumulator ''1'' ''1'' tieTrace) =
     Inr [Enter frameH 0, Enter frameG 0, Leave frameG 0, Leave frameH 0]"
proof -
  have c: "callsOf (buildState sampleAccumulator ''1'' ''1'' tieTrace) =
     Inr [Enter frameH 0, Enter frameG 0, Leave frameG 0, Leave frameH 0]"
    by code_simp
  have h: "beginQueue tieState = [traceEvent ''h'' PhB 3 argsH, traceEvent ''g'' PhB 3 argsG]"
          "endQueue tieState = [traceEvent ''g'' PhE 3 argsG]"
          "ts (traceEvent ''h'' PhB 3 argsH) = ts (traceEvent ''g'' PhE 3 argsG)"
          "ts (traceEvent ''g'' PhB 3 argsG) = ts (traceEvent ''g'' PhE 3 argsG)"
    by (simp_all add: tieState_def startState_def traceEvent_def)
  show ?thesis
    using getNextQueue_prefers_begin_on_tie [where s = tieState and A = sampleAccumulator and t = 3
                and ?b1.0 = "traceEvent ''h'' PhB 3 argsH"
                and ?b2.0 = "traceEvent ''g'' PhB 3 argsG" and bq = "[]"
                and e = "traceEvent ''g'' PhE 3 argsG" and eq = "[]"] h c
    by blast
qed

section \<open>The end branch on an empty stack\<close>

text \<open>
  C10. The end branch reads the top of the stack before it looks at the frame cache:
  when the end queue is selected and the stack is empty, the step and the loop fail with
  the runtime's TypeError, whatever the frame cache holds. So a bucket whose earliest
  end event is strictly earlier than its earliest begin event makes \<open>buildProfile\<close>
  fail with TypeError, not with UnbalancedStack.
\<close>

theorem end_on_empty_stack_is_TypeError:
  "(stack s = [] \<and> getNextQueue (beginQueue s) (endQueue s) = Inr QE \<longrightarrow>
      mergeStep A t s = Inl TypeError \<and> mergeLoop A t s = Inl TypeError) \<and>
   (sortBy chronologicalSort (beginQueue (normalizeBucket processId threadId events)) = b # bq \<and>
    sortBy chronologicalSort (endQueue (normalizeBucket processId threadId events)) = e # eq \<and>
    ts e < ts b \<longrightarrow>
      buildProfile A processId threadId events = Inl TypeError)"
proof -
  have a: "mergeStep A t s = Inl TypeError \<and> mergeLoop A t s = Inl TypeError"
    if "stack s = []" "getNextQueue (beginQueue s) (endQueue s) = Inr QE" for s :: "'a state" and t
  proof -
    from that(2) have ne: "endQueue s \<noteq> []" by (auto simp: getNextQueue_QE_iff)
    have "mergeStep A t s = Inl TypeError"
      using that by (simp add: mergeStep_def endStep_def split: list.splits)
    then show ?thesis using ne by (subst mergeLoop.simps) simp
  qed
  have b: "buildProfile A processId threadId events = Inl TypeError"
    if h: "sortBy chronologicalSort (beginQueue (normalizeBucket processId threadId events)) = b # bq"
      "sortBy chronologicalSort (endQueue (normalizeBucket processId threadId events)) = e # eq"
      "ts e < ts b"
  proof -
    let ?s = "startState A (normalizeBucket processId threadId events) (b # bq) (e # eq)"
    have "stack ?s = []" "getNextQueue (beginQueue ?s) (endQueue ?s) = Inr QE"
      using h(3) by (simp_all add: startState_def getNextQueue_def)
    then have "mergeLoop A (ts b) ?s = Inl TypeError" using a by blast
    then show ?thesis using h by (simp add: buildProfile_def buildState_def Let_def)
  qed
  show ?thesis using a b by blast
qed

theorem end_on_empty_stack_is_TypeError_witness:
  "stack earlyEndState = [] \<and>
   getNextQueue (beginQueue earlyEndState) (endQueue earlyEndState) = Inr QE \<and>
   mergeLoop sampleAccumulator 5 earlyEndState = Inl TypeError \<and>
   sortBy chronologicalSort (beginQueue (normalizeBucket ''1'' ''1'' earlyEndTrace)) =
     [traceEvent ''h'' PhB 5 argsH] \<and>
   sortBy chronologicalSort (endQueue (normalizeBucket ''1'' ''1'' earlyEndTrace)) =
     [traceEvent ''g'' PhE 3 argsG] \<and>
   ts (traceEvent ''g'' PhE 3 argsG) < ts (traceEvent ''h'' PhB 5 argsH) \<and>
   buildProfile sampleAccumulator ''1'' ''1'' earlyEndTrace = Inl TypeError"
proof -
  have n: "sortBy chronologicalSort (beginQueue (normalizeBucket ''1'' ''1'' earlyEndTrace)) =
             [traceEvent ''h'' PhB 5 argsH]"
          "sortBy chronologicalSort (endQueue (normalizeBucket ''1'' ''1'' earlyEndTrace)) =
             [traceEvent ''g'' PhE 3 argsG]"
    by (simp_all add: normalizeBucket_def timelineEvents_def collectEvent_def earlyEndTrace_def
          traceEvent_def sortBy_def)
  have t: "ts (traceEvent ''g'' PhE 3 argsG) < ts (traceEvent ''h'' PhB 5 argsH)"
    by (simp add: traceEvent_def)
  have s: "stack earlyEndState = []"
          "getNextQueue (beginQueue earlyEndState) (endQueue earlyEndState) = Inr QE"
    by (simp_all add: earlyEndState_def startState_def getNextQueue_def traceEvent_def)
  show ?thesis
    using end_on_empty_stack_is_TypeError [where s = earlyEndState and A = sampleAccumulator and t = 5
                 and processId = "''1''" and threadId = "''1''" and events = earlyEndTrace
                 and b = "traceEvent ''h'' PhB 5 argsH" and bq = "[]"
                 and e = "traceEvent ''g'' PhE 3 argsG" and eq = "[]"]
          n t s
    by simp
qed

section \<open>The sibling scan of the end branch\<close>

text \<open>
  C1. The end branch removes the head of the end queue before it scans, so the scan
  starts at the third entry of the run and the entry that is dropped from the queue is
  always the original head. On \<open>siblingTrace\<close> the stack ends in g and the end queue
  holds \<open>End(h)\<close> before \<open>End(g)\<close> at one timestamp: the builder leaves h first, and
  it is \<open>End(g)\<close> that stays in the queue. With a third end event between the two the
  scan does find \<open>End(g)\<close> and the builder leaves g, but the entry removed is still
  \<open>End(h)\<close>, and \<open>End(g)\<close> stays at the front of the queue.
\<close>

theorem sibling_scan_misses_second_entry:
  "callsOf (buildState sampleAccumulator ''1'' ''1'' siblingTrace) =
     Inr [Enter frameH 0, Enter frameG 1, Leave frameH 5, Leave frameG 5] \<and>
   callsOf (endStep sampleAccumulator 0 siblingState) =
     Inr [Enter frameH 0, Enter frameG 1, Leave frameH 5] \<and>
   endQueueOf (endStep sampleAccumulator 0 siblingState) = Inr [traceEvent ''g'' PhE 5 argsG] \<and>
   callsOf (endStep sampleAccumulator 0 siblingRunState) =
     Inr [Enter frameH 0, Enter frameG 1, Leave frameG 5] \<and>
   endQueueOf (endStep sampleAccumulator 0 siblingRunState) =
     Inr [traceEvent ''g'' PhE 5 argsG, traceEvent ''x'' PhE 5 []]"
  by code_simp

section \<open>A bucket with a lone end event\<close>

lemma sortBy_single [simp]: "sortBy cmp [x] = [x]"
  by (simp add: sortBy_def)

lemma sortBy_Nil [simp]: "sortBy cmp [] = []"
  by (simp add: sortBy_def)

lemma normalizeBucket_single_End:
  "ph e = PhE \<Longrightarrow> beginQueue (normalizeBucket p t [e]) = [] \<and> endQueue (normalizeBucket p t [e]) = [e]"
  by (simp add: normalizeBucket_def timelineEvents_def collectEvent_def)

text \<open>
  C4, as stated, fails: a bucket whose only event is an end event has an empty begin
  queue, and \<open>buildProfile\<close> stops at its guard with EmptyProfile.
\<close>

theorem lone_End_not_UnbalancedStack:
  "buildProfile sampleAccumulator ''1'' ''1'' [loneEnd] = Inl EmptyProfile \<and>
   buildProfile sampleAccumulator ''1'' ''1'' [loneEnd] \<noteq>
     Inl (UnbalancedStack (key (createFrameInfoFromEvent loneEnd)))"
  by code_simp

text \<open>
  C4, amended. A bucket whose only event is an end event fails with EmptyProfile. An end
  event whose key differs from the key of the one begin event before it fails with
  UnbalancedStack, once the accumulator has entered the begin event's frame.
\<close>

theorem lone_End_is_EmptyProfile:
  "(ph e = PhE \<longrightarrow> buildProfile A processId threadId [e] = Inl EmptyProfile) \<and>
   (ph b = PhB \<and> ph e = PhE \<and> ts b \<le> ts e \<and>
    key (createFrameInfoFromEvent e) \<noteq> key (createFrameInfoFromEvent b) \<and>
    enterFrame A (createFrameInfoFromEvent b) 0
      (newProfile A (''pid ('' @ processId @ ''): tid ('' @ threadId @ '')'')) = Inr p
    \<longrightarrow> buildProfile A processId threadId [b, e] =
          Inl (UnbalancedStack (key (createFrameInfoFromEvent e))))"
proof -
  have a: "buildProfile A processId threadId [e] = Inl EmptyProfile" if "ph e = PhE"
    using normalizeBucket_single_End [OF that, of processId threadId]
    by (simp add: buildProfile_def buildState_def Let_def)
  have b: "buildProfile A processId threadId [b, e] =
          Inl (UnbalancedStack (key (createFrameInfoFromEvent e)))"
    if h: "ph b = PhB" "ph e = PhE" "ts b \<le> ts e"
      "key (createFrameInfoFromEvent e) \<noteq> key (createFrameInfoFromEvent b)"
      "enterFrame A (createFrameInfoFromEvent b) 0
         (newProfile A (''pid ('' @ processId @ ''): tid ('' @ threadId @ '')'')) = Inr p"
  proof -
    let ?q = "normalizeBucket processId threadId [b, e]"
    have q: "beginQueue ?q = [b]" "endQueue ?q = [e]"
      "processName ?q = ''pid ('' @ processId @ '')''"
      "threadName ?q = ''tid ('' @ threadId @ '')''"
      using h(1,2) by (simp_all add: normalizeBucket_def timelineEvents_def collectEvent_def)
    let ?s0 = "startState A ?q [b] [e]"
    define s1 where "s1 =
      ?s0\<lparr>beginQueue := [],
           frameCache := [key (createFrameInfoFromEvent b) \<mapsto> createFrameInfoFromEvent b],
           profile := p, calls := [Enter (createFrameInfoFromEvent b) 0], stack := [b]\<rparr>"
    have g: "getNextQueue [b] [e] = Inr QB"
      using h(3) by (auto simp: getNextQueue_def)
    have "beginStep A (ts b) ?s0 = Inr s1"
      using h(5) q by (simp add: beginStep_def startState_def Let_def s1_def)
    then have s1: "mergeStep A (ts b) ?s0 = Inr s1"
      using g by (simp add: mergeStep_def startState_def)
    have s1': "beginQueue s1 = []" "endQueue s1 = [e]" "stack s1 = [b]"
      "frameCache s1 = [key (createFrameInfoFromEvent b) \<mapsto> createFrameInfoFromEvent b]"
      by (simp_all add: s1_def startState_def)
    have "scanSiblings k [] 1 = None" for k by (simp add: scanSiblings.simps)
    then have s2: "mergeStep A (ts b) s1 = Inl (UnbalancedStack (key (createFrameInfoFromEvent e)))"
      using s1' h(4) by (simp add: mergeStep_def getNextQueue_def endStep_def Let_def)
    have "mergeLoop A (ts b) ?s0 = mergeLoop A (ts b) s1"
      using s1 by (subst mergeLoop.simps) (simp add: startState_def)
    also have "\<dots> = Inl (UnbalancedStack (key (createFrameInfoFromEvent e)))"
      using s2 s1'(2) by (subst mergeLoop.simps) simp
    finally show ?thesis
      using q by (simp add: buildProfile_def buildState_def Let_def)
  qed
  show ?thesis using a b by blast
qed

theorem lone_End_is_EmptyProfile_witness:
  "ph loneEnd = PhE \<and> buildProfile sampleAccumulator ''1'' ''1'' [loneEnd] = Inl EmptyProfile \<and>
   ph openH = PhB \<and> ts openH \<le> ts loneEnd \<and>
   key (createFrameInfoFromEvent loneEnd) \<noteq> key (createFrameInfoFromEvent openH) \<and>
   enterFrame sampleAccumulator (createFrameInfoFromEvent openH) 0
     (newProfile sampleAccumulator (''pid ('' @ ''1'' @ ''): tid ('' @ ''1'' @ '')'')) = Inr enteredH \<and>
   buildProfile sampleAccumulator ''1'' ''1'' [openH, loneEnd] =
     Inl (UnbalancedStack (key (createFrameInfoFromEvent loneEnd)))"
proof -
  have h: "ph loneEnd = PhE" "ph openH = PhB" "ts openH \<le> ts loneEnd"
    by (simp_all add: loneEnd_def openH_def traceEvent_def)
  have k: "key (createFrameInfoFromEvent loneEnd) \<noteq> key (createFrameInfoFromEvent openH)"
    by code_simp
  have en: "enterFrame sampleAccumulator (createFrameInfoFromEvent openH) 0
     (newProfile sampleAccumulator (''pid ('' @ ''1'' @ ''): tid ('' @ ''1'' @ '')'')) = Inr enteredH"
    by code_simp
  show ?thesis
    using lone_End_is_EmptyProfile [where e = loneEnd and b = openH and A = sampleAccumulator
                and processId = "''1''" and threadId = "''1''" and p = enteredH] h k en
    by blast
qed

section \<open>Complete events\<close>

lemma collectEvent_beginQueue:
  "beginQueue (collectEvent p t q e) =
     beginQueue q @
       (if ph e = PhB then [e]
        else if ph e = PhX \<and> (dur e \<noteq> None \<or> tdur e \<noteq> None) then [e\<lparr>ph := PhB\<rparr>]
        else [])"
  by (simp add: collectEvent_def)

lemma collectEvent_endQueue:
  "endQueue (collectEvent p t q e) =
     endQueue q @
       (if ph e = PhE then [e]
        else if ph e = PhX \<and> (dur e \<noteq> None \<or> tdur e \<noteq> None)
          then [e\<lparr>ph := PhE,
                  ts := ts e + (case dur e of Some d \<Rightarrow> d
                                | None \<Rightarrow> (case tdur e of Some d \<Rightarrow> d | None \<Rightarrow> 0))\<rparr>]
        else [])"
  by (simp add: collectEvent_def)

lemma foldl_collect_beginQueue:
  "beginQueue (foldl (collectEvent p t) q xs) =
     beginQueue q @ beginQueue (foldl (collectEvent p t) (q\<lparr>beginQueue := []\<rparr>) xs)"
proof (induction xs arbitrary: q rule: rev_induct)
  case Nil
  then show ?case by simp
next
  case (snoc x xs)
  show ?case
    by (simp add: collectEvent_beginQueue snoc.IH [of q])
qed

lemma foldl_collect_endQueue:
  "endQueue (foldl (collectEvent p t) q xs) =
     endQueue q @ endQueue (foldl (collectEvent p t) (q\<lparr>endQueue := []\<rparr>) xs)"
proof (induction xs arbitrary: q rule: rev_induct)
  case Nil
  then show ?case by simp
next
  case (snoc x xs)
  show ?case
    by (simp add: collectEvent_endQueue snoc.IH [of q])
qed

lemma foldl_collect_labels_begin:
  "beginQueue q = beginQueue q' \<Longrightarrow>
   beginQueue (foldl (collectEvent p t) q xs) = beginQueue (foldl (collectEvent p t) q' xs)"
  by (induction xs arbitrary: q q' rule: rev_induct) (simp_all add: collectEvent_beginQueue)

lemma foldl_collect_labels_end:
  "endQueue q = endQueue q' \<Longrightarrow>
   endQueue (foldl (collectEvent p t) q xs) = endQueue (foldl (collectEvent p t) q' xs)"
  by (induction xs arbitrary: q q' rule: rev_induct) (simp_all add: collectEvent_endQueue)

text \<open>
  C5. A complete event with a numeric \<open>dur\<close> or \<open>tdur\<close> adds one begin event at its
  timestamp to the begin queue and one end event at its timestamp plus the duration to
  the end queue, \<open>dur\<close> before \<open>tdur\<close>; with neither it adds nothing. The events
  before and after it in the bucket contribute what they contribute on their own.
\<close>

theorem complete_event_split:
  "ph e = PhX \<longrightarrow>
     beginQueue (normalizeBucket p t (xs @ e # ys)) =
       beginQueue (normalizeBucket p t xs) @
       (if dur e = None \<and> tdur e = None then [] else [e\<lparr>ph := PhB\<rparr>]) @
       beginQueue (normalizeBucket p t ys) \<and>
     endQueue (normalizeBucket p t (xs @ e # ys)) =
       endQueue (normalizeBucket p t xs) @
       (case dur e of
          Some d \<Rightarrow> [e\<lparr>ph := PhE, ts := ts e + d\<rparr>]
        | None \<Rightarrow> (case tdur e of Some d \<Rightarrow> [e\<lparr>ph := PhE, ts := ts e + d\<rparr>] | None \<Rightarrow> [])) @
       endQueue (normalizeBucket p t ys)"
proof
  assume x: "ph e = PhX"
  let ?q0 = "\<lparr>processName = ''pid ('' @ p @ '')'', threadName = ''tid ('' @ t @ '')'',
              beginQueue = [], endQueue = []\<rparr>"
  let ?f = "collectEvent p t"
  let ?q1 = "?f (foldl ?f ?q0 (timelineEvents xs)) e"
  have split: "normalizeBucket p t (xs @ e # ys) = foldl ?f ?q1 (timelineEvents ys)"
    using x by (simp add: normalizeBucket_def timelineEvents_def)
  have b: "beginQueue (foldl ?f ?q1 (timelineEvents ys)) =
             beginQueue ?q1 @ beginQueue (normalizeBucket p t ys)"
    unfolding normalizeBucket_def
    by (subst foldl_collect_beginQueue, rule arg_cong [where f = "\<lambda>z. _ @ z"],
        rule foldl_collect_labels_begin) simp
  have e: "endQueue (foldl ?f ?q1 (timelineEvents ys)) =
             endQueue ?q1 @ endQueue (normalizeBucket p t ys)"
    unfolding normalizeBucket_def
    by (subst foldl_collect_endQueue, rule arg_cong [where f = "\<lambda>z. _ @ z"],
        rule foldl_collect_labels_end) simp
  show "beginQueue (normalizeBucket p t (xs @ e # ys)) =
       beginQueue (normalizeBucket p t xs) @
       (if dur e = None \<and> tdur e = None then [] else [e\<lparr>ph := PhB\<rparr>]) @
       beginQueue (normalizeBucket p t ys) \<and>
     endQueue (normalizeBucket p t (xs @ e # ys)) =
       endQueue (normalizeBucket p t xs) @
       (case dur e of
          Some d \<Rightarrow> [e\<lparr>ph := PhE, ts := ts e + d\<rparr>]
        | None \<Rightarrow> (case tdur e of Some d \<Rightarrow> [e\<lparr>ph := PhE, ts := ts e + d\<rparr>] | None \<Rightarrow> [])) @
       endQueue (normalizeBucket p t ys)"
    unfolding split b e
    using x by (auto simp: collectEvent_beginQueue collectEvent_endQueue normalizeBucket_def
                     split: option.splits)
qed

theorem complete_event_split_witness:
  "ph completeF = PhX \<and>
   beginQueue (normalizeBucket ''1'' ''1'' ([] @ completeF # [])) = [traceEvent ''f'' PhB 0 []\<lparr>dur := Some 10\<rparr>] \<and>
   endQueue (normalizeBucket ''1'' ''1'' ([] @ completeF # [])) = [traceEvent ''f'' PhE 10 []\<lparr>dur := Some 10\<rparr>]"
proof -
  have h: "ph completeF = PhX" by (simp add: completeF_def traceEvent_def)
  have n: "beginQueue (normalizeBucket ''1'' ''1'' []) = []" "endQueue (normalizeBucket ''1'' ''1'' []) = []"
    by (simp_all add: normalizeBucket_def timelineEvents_def)
  have d: "dur completeF = Some 10" "completeF\<lparr>ph := PhB\<rparr> = traceEvent ''f'' PhB 0 []\<lparr>dur := Some 10\<rparr>"
    "completeF\<lparr>ph := PhE, ts := ts completeF + 10\<rparr> = traceEvent ''f'' PhE 10 []\<lparr>dur := Some 10\<rparr>"
    by (simp_all add: completeF_def traceEvent_def)
  show ?thesis
    using complete_event_split [where e = completeF and p = "''1''" and t = "''1''" and xs = "[]" and ys = "[]"] h
    by (simp add: n d)
qed

section \<open>The format detector\<close>



section \<open>Invariants of the merge loop\<close>

text \<open>
  Two invariants of the builder's state: every event on the stack has its frame in the
  cache, and the calls issued so far hold as many enters as leaves plus the height of
  the stack.
\<close>

lemma beginStep_entered: "beginStep A t s = Inr s' \<Longrightarrow> entered s \<Longrightarrow> entered s'"
  by (auto simp: beginStep_def entered_def Let_def split: list.splits sum.splits if_splits)

lemma beginStep_balanced: "beginStep A t s = Inr s' \<Longrightarrow> balanced s \<Longrightarrow> balanced s'"
  by (auto simp: beginStep_def balanced_def enterCount_def leaveCount_def Let_def
           split: list.splits sum.splits)

lemma endStep_entered: "endStep A t s = Inr s' \<Longrightarrow> entered s \<Longrightarrow> entered s'"
  by (auto simp: endStep_def entered_def Let_def split: list.splits sum.splits option.splits)

lemma endStep_balanced: "endStep A t s = Inr s' \<Longrightarrow> balanced s \<Longrightarrow> balanced s'"
  by (auto simp: endStep_def balanced_def enterCount_def leaveCount_def Let_def
           split: list.splits sum.splits option.splits)

lemma mergeStep_inv:
  "mergeStep A t s = Inr s' \<Longrightarrow> entered s \<and> balanced s \<Longrightarrow> entered s' \<and> balanced s'"
  by (auto simp: mergeStep_def split: sum.splits queue.splits
           dest: beginStep_entered beginStep_balanced endStep_entered endStep_balanced)

lemma mergeLoop_inv:
  "mergeLoop A t s = Inr s' \<Longrightarrow> entered s \<and> balanced s \<Longrightarrow>
   entered s' \<and> balanced s' \<and> beginQueue s' = [] \<and> endQueue s' = []"
proof (induction A t s rule: mergeLoop.induct)
  case (1 A t s)
  show ?case
  proof (cases "beginQueue s \<noteq> [] \<or> endQueue s \<noteq> []")
    case True
    with "1.prems"(1) obtain s1 where s1: "mergeStep A t s = Inr s1" "mergeLoop A t s1 = Inr s'"
      by (subst (asm) mergeLoop.simps) (auto split: sum.splits)
    from mergeStep_inv [OF s1(1) "1.prems"(2)] "1.IH" [OF True s1(1) s1(2)]
    show ?thesis by blast
  next
    case False
    with "1.prems" show ?thesis by (subst (asm) mergeLoop.simps) auto
  qed
qed

lemma startState_inv: "entered (startState A q bq eq) \<and> balanced (startState A q bq eq)"
  by (simp add: entered_def balanced_def startState_def enterCount_def leaveCount_def)

lemma closeLeftover_counts:
  "closeLeftover A s = Inr s' \<Longrightarrow>
   stack s' = [] \<and> enterCount (calls s') = enterCount (calls s) \<and>
   leaveCount (calls s') = leaveCount (calls s) + length (stack s)"
proof (induction A s rule: closeLeftover.induct)
  case (1 A s)
  show ?case
  proof (cases "stack s")
    case Nil
    with "1.prems" show ?thesis by (subst (asm) closeLeftover.simps) auto
  next
    case (Cons item below)
    let ?info = "createFrameInfoFromEvent item"
    from "1.prems" Cons obtain fr p where
      fr: "frameCache s (key ?info) = Some fr"
      and p: "leaveFrame A fr (totalWeight A (profile s) fr) (profile s) = Inr p"
      and rec: "closeLeftover A (s\<lparr>stack := below, profile := p,
                  calls := calls s @ [Leave fr (totalWeight A (profile s) fr)]\<rparr>) = Inr s'"
      by (subst (asm) closeLeftover.simps) (auto simp: Let_def split: option.splits sum.splits)
    from "1.IH" [OF Cons refl fr p rec] Cons
    show ?thesis by (simp add: enterCount_def leaveCount_def)
  qed
qed

lemma beginStep_trace:
  "beginStep A t s = Inr s' \<Longrightarrow> (\<forall>k f. frameCache s k = Some f \<longrightarrow> key f = k) \<Longrightarrow>
   (\<forall>k f. frameCache s' k = Some f \<longrightarrow> key f = k) \<and>
   enterLog (calls s') @ beginLog t (beginQueue s') = enterLog (calls s) @ beginLog t (beginQueue s) \<and>
   leaveCount (calls s') + length (endQueue s') = leaveCount (calls s) + length (endQueue s)"
  by (auto simp: beginStep_def enterLog_def beginLog_def leaveCount_def Let_def
           split: list.splits sum.splits if_splits)

lemma endStep_trace:
  "endStep A t s = Inr s' \<Longrightarrow> (\<forall>k f. frameCache s k = Some f \<longrightarrow> key f = k) \<Longrightarrow>
   (\<forall>k f. frameCache s' k = Some f \<longrightarrow> key f = k) \<and>
   enterLog (calls s') @ beginLog t (beginQueue s') = enterLog (calls s) @ beginLog t (beginQueue s) \<and>
   leaveCount (calls s') + length (endQueue s') = leaveCount (calls s) + length (endQueue s)"
  by (auto simp: endStep_def enterLog_def beginLog_def leaveCount_def Let_def
           split: list.splits sum.splits option.splits)

lemma mergeStep_trace:
  "mergeStep A t s = Inr s' \<Longrightarrow> (\<forall>k f. frameCache s k = Some f \<longrightarrow> key f = k) \<Longrightarrow>
   (\<forall>k f. frameCache s' k = Some f \<longrightarrow> key f = k) \<and>
   enterLog (calls s') @ beginLog t (beginQueue s') = enterLog (calls s) @ beginLog t (beginQueue s) \<and>
   leaveCount (calls s') + length (endQueue s') = leaveCount (calls s) + length (endQueue s)"
  using beginStep_trace [of A t s s'] endStep_trace [of A t s s']
  by (auto simp: mergeStep_def split: sum.splits queue.splits)

lemma mergeLoop_trace:
  "mergeLoop A t s = Inr s' \<Longrightarrow> (\<forall>k f. frameCache s k = Some f \<longrightarrow> key f = k) \<Longrightarrow>
   enterLog (calls s') = enterLog (calls s) @ beginLog t (beginQueue s) \<and>
   leaveCount (calls s') = leaveCount (calls s) + length (endQueue s)"
proof (induction A t s rule: mergeLoop.induct)
  case (1 A t s)
  show ?case
  proof (cases "beginQueue s \<noteq> [] \<or> endQueue s \<noteq> []")
    case True
    with "1.prems"(1) obtain s1 where s1: "mergeStep A t s = Inr s1" "mergeLoop A t s1 = Inr s'"
      by (subst (asm) mergeLoop.simps) (auto split: sum.splits)
    from mergeStep_trace [OF s1(1) "1.prems"(2)]
    have st: "\<forall>k f. frameCache s1 k = Some f \<longrightarrow> key f = k"
      "enterLog (calls s1) @ beginLog t (beginQueue s1) =
         enterLog (calls s) @ beginLog t (beginQueue s)"
      "leaveCount (calls s1) + length (endQueue s1) = leaveCount (calls s) + length (endQueue s)"
      by blast+
    from "1.IH" [OF True s1(1) s1(2) st(1)] st(2,3)
    show ?thesis by simp
  next
    case False
    with "1.prems" show ?thesis
      by (subst (asm) mergeLoop.simps) (auto simp: beginLog_def)
  qed
qed

lemma closeLeftover_enterLog:
  "closeLeftover A s = Inr s' \<Longrightarrow> enterLog (calls s') = enterLog (calls s)"
proof (induction A s rule: closeLeftover.induct)
  case (1 A s)
  show ?case
  proof (cases "stack s")
    case Nil
    with "1.prems" show ?thesis by (subst (asm) closeLeftover.simps) auto
  next
    case (Cons item below)
    let ?info = "createFrameInfoFromEvent item"
    from "1.prems" Cons obtain fr p where
      fr: "frameCache s (key ?info) = Some fr"
      and p: "leaveFrame A fr (totalWeight A (profile s) fr) (profile s) = Inr p"
      and rec: "closeLeftover A (s\<lparr>stack := below, profile := p,
                  calls := calls s @ [Leave fr (totalWeight A (profile s) fr)]\<rparr>) = Inr s'"
      by (subst (asm) closeLeftover.simps) (auto simp: Let_def split: option.splits sum.splits)
    from "1.IH" [OF Cons refl fr p rec]
    show ?thesis by (simp add: enterLog_def)
  qed
qed

lemma enterLog_length: "length (enterLog cs) = enterCount cs"
  by (simp add: enterLog_def enterCount_def)

text \<open>
  C9, as stated, fails in its last part: the frame handed to \<open>leaveFrame\<close> is the
  frame of the end event's key, whatever event the stack pops. On \<open>doubleEndTrace\<close>
  the build succeeds, frame h is entered and never left, and frame g is entered once and
  left twice.
\<close>

theorem one_frame_left_twice:
  "buildProfile sampleAccumulator ''1'' ''1'' doubleEndTrace = Inr doubleEndProfile \<and>
   callsOf (buildState sampleAccumulator ''1'' ''1'' doubleEndTrace) =
     Inr [Enter frameH 0, Enter frameG 1, Leave frameG 2, Leave frameG 3] \<and>
   countsOf frameH (buildState sampleAccumulator ''1'' ''1'' doubleEndTrace) = Inr (1, 0) \<and>
   countsOf frameG (buildState sampleAccumulator ''1'' ''1'' doubleEndTrace) = Inr (1, 2)"
  by code_simp

text \<open>
  C9, amended. When \<open>buildProfile\<close> returns, the stack is empty at the call of
  \<open>build\<close>; the builder has entered one frame per event of the begin queue, in queue
  order, with the key of that event and its time relative to the first; it has issued
  one leave per event of the end queue in the merge loop and one leave per event left
  on the stack in the tail; and the leaves are as many as the enters. So every event
  pushed on the stack is popped once, with one \<open>leaveFrame\<close> call.
\<close>

theorem enters_and_leaves_balance:
  "buildProfile A processId threadId events = Inr r \<Longrightarrow>
   (let q = normalizeBucket processId threadId events;
        beginQ = sortBy chronologicalSort (beginQueue q);
        endQ = sortBy chronologicalSort (endQueue q)
    in \<exists>s1 s. mergeLoop A (ts (hd beginQ)) (startState A q beginQ endQ) = Inr s1 \<and>
         closeLeftover A s1 = Inr s \<and>
         buildState A processId threadId events = Inr s \<and> r = build A (profile s) \<and>
         stack s = [] \<and>
         enterLog (calls s) = beginLog (ts (hd beginQ)) beginQ \<and>
         leaveCount (calls s1) = length endQ \<and>
         leaveCount (calls s) = length endQ + length (stack s1) \<and>
         leaveCount (calls s) = enterCount (calls s))"
proof -
  assume ok: "buildProfile A processId threadId events = Inr r"
  define q where "q = normalizeBucket processId threadId events"
  define beginQ where "beginQ = sortBy chronologicalSort (beginQueue q)"
  define endQ where "endQ = sortBy chronologicalSort (endQueue q)"
  from ok obtain s where s: "buildState A processId threadId events = Inr s"
    and r: "r = build A (profile s)"
    by (auto simp: buildProfile_def split: sum.splits)
  from s obtain b bq s1 where bq: "beginQ = b # bq" and
    m: "mergeLoop A (ts b) (startState A q beginQ endQ) = Inr s1" and c: "closeLeftover A s1 = Inr s"
    by (auto simp: buildState_def Let_def q_def beginQ_def endQ_def split: list.splits sum.splits)
  let ?s0 = "startState A q beginQ endQ"
  have k0: "\<forall>k f. frameCache ?s0 k = Some f \<longrightarrow> key f = k"
    by (simp add: startState_def)
  from mergeLoop_trace [OF m k0]
  have t1: "enterLog (calls s1) = beginLog (ts b) beginQ" "leaveCount (calls s1) = length endQ"
    by (simp_all add: startState_def enterLog_def leaveCount_def)
  from mergeLoop_inv [OF m startState_inv] have bal: "balanced s1" by simp
  from closeLeftover_counts [OF c]
  have t2: "stack s = []" "enterCount (calls s) = enterCount (calls s1)"
    "leaveCount (calls s) = leaveCount (calls s1) + length (stack s1)"
    by simp_all
  have t3: "enterLog (calls s) = beginLog (ts b) beginQ"
    using closeLeftover_enterLog [OF c] t1(1) by simp
  have t4: "leaveCount (calls s) = enterCount (calls s)"
    using t2 bal by (simp add: balanced_def)
  have "\<exists>s1 s. mergeLoop A (ts (hd beginQ)) (startState A q beginQ endQ) = Inr s1 \<and>
         closeLeftover A s1 = Inr s \<and>
         buildState A processId threadId events = Inr s \<and> r = build A (profile s) \<and>
         stack s = [] \<and>
         enterLog (calls s) = beginLog (ts (hd beginQ)) beginQ \<and>
         leaveCount (calls s1) = length endQ \<and>
         leaveCount (calls s) = length endQ + length (stack s1) \<and>
         leaveCount (calls s) = enterCount (calls s)"
    using m c s r t1 t2 t3 t4 bq by (intro exI [of _ s1] exI [of _ s]) simp
  then show ?thesis by (simp add: Let_def q_def beginQ_def endQ_def)
qed

theorem enters_and_leaves_balance_witness:
  "buildProfile sampleAccumulator ''1'' ''1'' tailTrace = Inr tailProfile \<and>
   callsOf (buildState sampleAccumulator ''1'' ''1'' tailTrace) =
     Inr [Enter frameH 0, Enter frameG 3, Leave frameG 4, Leave frameH 4] \<and>
   (let q = normalizeBucket ''1'' ''1'' tailTrace;
        beginQ = sortBy chronologicalSort (beginQueue q);
        endQ = sortBy chronologicalSort (endQueue q)
    in \<exists>s1 s. mergeLoop sampleAccumulator (ts (hd beginQ))
                  (startState sampleAccumulator q beginQ endQ) = Inr s1 \<and>
         closeLeftover sampleAccumulator s1 = Inr s \<and>
         buildState sampleAccumulator ''1'' ''1'' tailTrace = Inr s \<and>
         tailProfile = build sampleAccumulator (profile s) \<and>
         stack s = [] \<and>
         enterLog (calls s) = beginLog (ts (hd beginQ)) beginQ \<and>
         leaveCount (calls s1) = length endQ \<and>
         leaveCount (calls s) = length endQ + length (stack s1) \<and>
         leaveCount (calls s) = enterCount (calls s))"
proof -
  have h: "buildProfile sampleAccumulator ''1'' ''1'' tailTrace = Inr tailProfile"
    by code_simp
  have c: "callsOf (buildState sampleAccumulator ''1'' ''1'' tailTrace) =
     Inr [Enter frameH 0, Enter frameG 3, Leave frameG 4, Leave frameH 4]"
    by code_simp
  show ?thesis
    using enters_and_leaves_balance [OF h] h c by blast
qed

section \<open>The forced-close tail\<close>











section \<open>The partitioner\<close>

lemma firstSeen_Nil [simp]: "firstSeen [] = []"
  by (simp add: firstSeen_def)

lemma firstSeen_snoc:
  "firstSeen (ks @ [k]) = (if k \<in> set ks then firstSeen ks else firstSeen ks @ [k])"
  by (simp add: firstSeen_def)

lemma set_firstSeen [simp]: "set (firstSeen ks) = set ks"
  by (simp add: firstSeen_def)

lemma distinct_firstSeen [simp]: "distinct (firstSeen ks)"
  by (simp add: firstSeen_def)

lemma setProp_keys_absent:
  "k \<notin> set ks \<Longrightarrow> setProp (map (\<lambda>k. (k, f k)) ks) k v = map (\<lambda>k. (k, f k)) ks @ [(k, v)]"
  by (induction ks) auto

lemma setProp_keys_present:
  "k \<in> set ks \<Longrightarrow> distinct ks \<Longrightarrow>
   setProp (map (\<lambda>k. (k, f k)) ks) k v = map (\<lambda>k'. (k', if k' = k then v else f k')) ks"
  by (induction ks) auto

lemma map_of_keys:
  "map_of (map (\<lambda>k. (k, f k)) ks) k = (if k \<in> set ks then Some (f k) else None)"
  by (induction ks) auto

lemma pidsOf_snoc:
  "pidsOf (trace @ [e]) =
     (case pid e of None \<Rightarrow> pidsOf trace
      | Some p \<Rightarrow> (case tid e of None \<Rightarrow> pidsOf trace
          | Some t \<Rightarrow> if p \<in> set (pidsOf trace) then pidsOf trace else pidsOf trace @ [p]))"
  by (auto simp: pidsOf_def firstSeen_snoc split: option.splits)

lemma tidsOf_snoc:
  "tidsOf (trace @ [e]) p =
     (if pid e = Some p \<and> tid e \<noteq> None
      then (if the (tid e) \<in> set (tidsOf trace p) then tidsOf trace p
            else tidsOf trace p @ [the (tid e)])
      else tidsOf trace p)"
  by (auto simp: tidsOf_def firstSeen_snoc)

lemma bucket_snoc:
  "bucket (trace @ [e]) p t =
     (if pid e = Some p \<and> tid e = Some t then bucket trace p t @ [e] else bucket trace p t)"
  by (simp add: bucket_def)

lemma tidsOf_new_pid: "p \<notin> set (pidsOf trace) \<Longrightarrow> tidsOf trace p = []"
  by (auto simp: pidsOf_def tidsOf_def firstSeen_def filter_empty_conv image_iff)

lemma bucket_new_tid: "t \<notin> set (tidsOf trace p) \<Longrightarrow> bucket trace p t = []"
  by (auto simp: bucket_def tidsOf_def filter_empty_conv image_iff)


lemma setProp_keys_last:
  "k \<notin> set ks \<Longrightarrow>
   setProp (map (\<lambda>k. (k, f k)) ks @ [(k, v0)]) k v = map (\<lambda>k. (k, f k)) ks @ [(k, v)]"
  by (induction ks) auto

lemma map_of_keys_last:
  "k \<notin> set ks \<Longrightarrow> map_of (map (\<lambda>k. (k, f k)) ks @ [(k, v0)]) k = Some v0"
  by (induction ks) auto

lemma addEvent_discovered: "addEvent (discovered trace) e = discovered (trace @ [e])"
proof (cases "pid e")
  case None
  then show ?thesis
    by (simp add: addEvent_def discovered_def pidsOf_snoc tidsOf_snoc bucket_snoc)
next
  case (Some p)
  note p = Some
  show ?thesis
  proof (cases "tid e")
    case None
    with p show ?thesis
      by (simp add: addEvent_def discovered_def pidsOf_snoc tidsOf_snoc bucket_snoc)
  next
    case (Some t)
    note t = Some
    let ?F = "\<lambda>p'. map (\<lambda>t'. (t', bucket trace p' t')) (tidsOf trace p')"
    let ?F' = "\<lambda>p'. map (\<lambda>t'. (t', bucket (trace @ [e]) p' t')) (tidsOf (trace @ [e]) p')"
    have other: "?F' p' = ?F p'" if "p' \<noteq> p" for p'
      using that p by (simp add: tidsOf_snoc bucket_snoc)
    have d: "discovered trace = map (\<lambda>p'. (p', ?F p')) (pidsOf trace)"
      by (simp add: discovered_def)
    show ?thesis
    proof (cases "p \<in> set (pidsOf trace)")
      case False
      have new: "?F' p = [(t, [e])]"
        using p t False by (simp add: tidsOf_snoc bucket_snoc tidsOf_new_pid bucket_new_tid)
      have lhs: "addEvent (discovered trace) e =
                   map (\<lambda>p'. (p', ?F p')) (pidsOf trace) @ [(p, [(t, [e])])]"
        using p t False
        by (simp add: addEvent_def d map_of_keys setProp_keys_absent map_of_keys_last
              setProp_keys_last Let_def del: map_of_append)
      have rhs: "discovered (trace @ [e]) =
                   map (\<lambda>p'. (p', ?F' p')) (pidsOf trace) @ [(p, ?F' p)]"
        using p t False by (simp add: discovered_def pidsOf_snoc)
      have "map (\<lambda>p'. (p', ?F' p')) (pidsOf trace) = map (\<lambda>p'. (p', ?F p')) (pidsOf trace)"
      proof (intro map_cong refl)
        fix x assume "x \<in> set (pidsOf trace)"
        with False have "x \<noteq> p" by auto
        from other [OF this] show "(x, ?F' x) = (x, ?F x)" by simp
      qed
      with lhs rhs new show ?thesis by simp
    next
      case True
      have threads: "(if t \<in> set (tidsOf trace p)
                      then setProp (?F p) t (bucket trace p t @ [e])
                      else setProp (?F p @ [(t, [])]) t [e]) = ?F' p"
      proof (cases "t \<in> set (tidsOf trace p)")
        case True
        have "map (\<lambda>t'. (t', if t' = t then bucket trace p t @ [e] else bucket trace p t'))
                (tidsOf trace p) = ?F' p"
          using p t True by (simp add: tidsOf_snoc bucket_snoc)
        with True show ?thesis
          by (simp add: setProp_keys_present tidsOf_def del: set_firstSeen)
      next
        case False
        have "?F p @ [(t, [e])] = ?F' p"
          using p t False by (auto simp: tidsOf_snoc bucket_snoc bucket_new_tid)
        with False show ?thesis by (simp add: setProp_keys_last)
      qed
      have lhs: "addEvent (discovered trace) e =
                   map (\<lambda>p'. (p', if p' = p then ?F' p else ?F p')) (pidsOf trace)"
      proof (cases "t \<in> set (tidsOf trace p)")
        case True
        with threads have th: "setProp (?F p) t (bucket trace p t @ [e]) = ?F' p" by simp
        show ?thesis
          using p t \<open>p \<in> set (pidsOf trace)\<close> True th
          by (simp add: addEvent_def d map_of_keys Let_def setProp_keys_present pidsOf_def
                del: set_firstSeen)
      next
        case False
        with threads have th: "setProp (?F p @ [(t, [])]) t [e] = ?F' p" by simp
        show ?thesis
          using p t \<open>p \<in> set (pidsOf trace)\<close> False th
          by (simp add: addEvent_def d map_of_keys Let_def setProp_keys_present
                setProp_keys_absent map_of_keys_last pidsOf_def
                del: set_firstSeen map_of_append)
      qed
      have rhs: "discovered (trace @ [e]) = map (\<lambda>p'. (p', ?F' p')) (pidsOf trace)"
        using p t True by (simp add: discovered_def pidsOf_snoc)
      have "map (\<lambda>p'. (p', ?F' p')) (pidsOf trace) =
            map (\<lambda>p'. (p', if p' = p then ?F' p else ?F p')) (pidsOf trace)"
      proof (intro map_cong refl)
        fix x
        show "(x, ?F' x) = (x, if x = p then ?F' p else ?F x)"
          using other [of x] by (cases "x = p") simp_all
      qed
      with lhs rhs show ?thesis by simp
    qed
  qed
qed

lemma split_discovered: "splitEventsByProcessAndTraceId trace = discovered trace"
proof (induction trace rule: rev_induct)
  case Nil
  show ?case by (simp add: splitEventsByProcessAndTraceId_def discovered_def pidsOf_def)
next
  case (snoc e trace)
  then show ?case
    by (simp add: splitEventsByProcessAndTraceId_def addEvent_discovered)
qed

text \<open>
  The partitioner computes the nested object described by \<open>discovered\<close>: each step
  of its loop extends it by one event.
\<close>

lemma addEvent_unroutable: "pid e = None \<or> tid e = None \<Longrightarrow> addEvent c e = c"
  by (auto simp: addEvent_def split: option.splits)

lemma split_skips_unroutable:
  "pid e = None \<or> tid e = None \<Longrightarrow>
   splitEventsByProcessAndTraceId (xs @ e # ys) = splitEventsByProcessAndTraceId (xs @ ys)"
  by (simp add: splitEventsByProcessAndTraceId_def addEvent_unroutable)

lemma discovered_bucket:
  "(p, threads) \<in> set (discovered trace) \<Longrightarrow> (t, evs) \<in> set threads \<Longrightarrow>
   evs = bucket trace p t"
  by (auto simp: discovered_def)

text \<open>
  C8. An event whose \<open>pid\<close> or \<open>tid\<close> is not a number changes nothing: the
  partition of the trace with the event at any position is the partition of the trace
  without it, no bucket holds the event, and \<open>parseChromeTraceArrayFormat\<close> returns
  the same result, be it a profile group or an error.
\<close>

theorem unroutable_event_has_no_influence:
  "pid e = None \<or> tid e = None \<Longrightarrow>
   splitEventsByProcessAndTraceId (xs @ e # ys) = splitEventsByProcessAndTraceId (xs @ ys) \<and>
   (\<forall>p threads t evs.
      (p, threads) \<in> set (splitEventsByProcessAndTraceId (xs @ e # ys)) \<and>
      (t, evs) \<in> set threads \<longrightarrow> e \<notin> set evs) \<and>
   parseChromeTraceArrayFormat A (xs @ e # ys) = parseChromeTraceArrayFormat A (xs @ ys)"
proof -
  assume h: "pid e = None \<or> tid e = None"
  have 1: "splitEventsByProcessAndTraceId (xs @ e # ys) =
           splitEventsByProcessAndTraceId (xs @ ys)"
    using h by (rule split_skips_unroutable)
  have 2: "e \<notin> set evs"
    if "(p, threads) \<in> set (splitEventsByProcessAndTraceId (xs @ e # ys))"
       "(t, evs) \<in> set threads" for p threads t evs
  proof -
    from that have "evs = bucket (xs @ e # ys) p t"
      by (simp add: split_discovered discovered_bucket)
    with h show ?thesis by (auto simp: bucket_def)
  qed
  have 3: "parseChromeTraceArrayFormat A (xs @ e # ys) = parseChromeTraceArrayFormat A (xs @ ys)"
    by (simp add: parseChromeTraceArrayFormat_def 1)
  show ?thesis using 1 2 3 by blast
qed

theorem unroutable_event_has_no_influence_witness:
  "tid noTid = None \<and>
   splitEventsByProcessAndTraceId ([traceEvent ''h'' PhB 0 argsH] @ noTid # nestedTrace) =
     splitEventsByProcessAndTraceId ([traceEvent ''h'' PhB 0 argsH] @ nestedTrace) \<and>
   parseChromeTraceArrayFormat sampleAccumulator
     ([traceEvent ''h'' PhB 0 argsH] @ noTid # nestedTrace) =
   parseChromeTraceArrayFormat sampleAccumulator ([traceEvent ''h'' PhB 0 argsH] @ nestedTrace)"
proof -
  have h: "tid noTid = None" by (simp add: noTid_def)
  then have "pid noTid = None \<or> tid noTid = None" by simp
  from unroutable_event_has_no_influence [OF this, where xs = "[traceEvent ''h'' PhB 0 argsH]" and ys = nestedTrace
             and A = sampleAccumulator] h
  show ?thesis by blast
qed

section \<open>The profile group\<close>

lemma insort_key_fst_keys:
  "insort_key fst (k, f k) (map (\<lambda>k. (k, f k)) ks) = map (\<lambda>k. (k, f k)) (insort k ks)"
  by (induction ks) auto

lemma sort_key_fst_keys:
  "sort_key fst (map (\<lambda>k. (k, f k)) ks) = map (\<lambda>k. (k, f k)) (sort ks)"
  by (induction ks) (simp_all add: insort_key_fst_keys)

lemma forInOrder_keys:
  "forInOrder (map (\<lambda>k. (k, f k)) ks) = map (\<lambda>k. (k, f k)) (enumerationOrder ks)"
  by (simp add: forInOrder_def enumerationOrder_def filter_map o_def sort_key_fst_keys)

lemma buildThreads_profiles:
  "buildThreads A processId threads acc = Inr r \<Longrightarrow>
   map Inr r = map Inr acc @ map (\<lambda>(t, evs). buildProfile A processId (showInt t) evs) threads"
proof (induction threads arbitrary: acc)
  case Nil
  then show ?case by simp
next
  case (Cons th threads)
  obtain t evs where th: "th = (t, evs)" by (cases th)
  from Cons.prems th obtain p where p: "buildProfile A processId (showInt t) evs = Inr p"
    and rec: "buildThreads A processId threads (acc @ [p]) = Inr r"
    by (auto split: sum.splits)
  from Cons.IH [OF rec] p th show ?case by simp
qed

lemma buildProcesses_profiles:
  "buildProcesses A cs acc = Inr r \<Longrightarrow>
   map Inr r = map Inr acc @
     concat (map (\<lambda>(p, threads).
                    map (\<lambda>(t, evs). buildProfile A (showInt p) (showInt t) evs)
                      (forInOrder threads)) cs)"
proof (induction cs arbitrary: acc)
  case Nil
  then show ?case by simp
next
  case (Cons c cs)
  obtain p threads where c: "c = (p, threads)" by (cases c)
  from Cons.prems c obtain acc' where
    a: "buildThreads A (showInt p) (forInOrder threads) acc = Inr acc'"
    and rec: "buildProcesses A cs acc' = Inr r"
    by (auto split: sum.splits)
  from Cons.IH [OF rec] buildThreads_profiles [OF a] c show ?case by simp
qed

lemma set_enumerationOrder [simp]: "set (enumerationOrder ks) = set ks"
  by (auto simp: enumerationOrder_def)

lemma distinct_enumerationOrder: "distinct ks \<Longrightarrow> distinct (enumerationOrder ks)"
  by (auto simp: enumerationOrder_def)

lemma distinct_pairs:
  "distinct ps \<Longrightarrow> (\<And>p. distinct (f p)) \<Longrightarrow>
   distinct (concat (map (\<lambda>p. map (\<lambda>t. (p, t)) (f p)) ps))"
  by (induction ps) (auto simp: distinct_map inj_on_def)

lemma set_pidsOf: "set (pidsOf trace) = {p. \<exists>e \<in> set trace. pid e = Some p \<and> tid e \<noteq> None}"
  by (auto simp: pidsOf_def image_iff) force

lemma set_tidsOf: "set (tidsOf trace p) = {t. \<exists>e \<in> set trace. pid e = Some p \<and> tid e = Some t}"
  by (auto simp: tidsOf_def image_iff) force

text \<open>
  C6, as stated, fails: the profiles are not in discovery order. On a trace that meets
  process 2 before process 1 the first profile is the one of process 1.
\<close>

theorem profiles_not_in_discovery_order:
  "map fst (splitEventsByProcessAndTraceId outOfOrderTrace) = [2, 1] \<and>
   labelsOf (parseChromeTraceArrayFormat sampleAccumulator outOfOrderTrace) =
     Inr [''pid (1): tid (1)'', ''pid (2): tid (1)'']"
  by code_simp

text \<open>
  C6, amended. On success the group has the name ``chrometrace'', an empty trace id, the
  active index 0 and one profile per bucket, that is, per pair of a numeric \<open>pid\<close>
  and \<open>tid\<close> that occurs in the trace. The profiles are in the order of
  \<open>bucketOrder\<close>: the process ids that are array indices in ascending order, then the
  other process ids in discovery order, and likewise the thread ids within each process.
\<close>

theorem profiles_in_enumeration_order:
  "parseChromeTraceArrayFormat A trace = Inr g \<Longrightarrow>
   groupName g = ''chrometrace'' \<and> traceID g = [] \<and> activeProfileIndex g = 0 \<and>
   map Inr (profiles g) =
     map (\<lambda>(p, t). buildProfile A (showInt p) (showInt t) (bucket trace p t))
       (bucketOrder trace) \<and>
   distinct (bucketOrder trace) \<and>
   set (bucketOrder trace) = {(p, t). \<exists>e \<in> set trace. pid e = Some p \<and> tid e = Some t}"
proof -
  assume ok: "parseChromeTraceArrayFormat A trace = Inr g"
  let ?F = "\<lambda>p. map (\<lambda>t. (t, bucket trace p t)) (tidsOf trace p)"
  have cs: "forInOrder (splitEventsByProcessAndTraceId trace) =
            map (\<lambda>p. (p, ?F p)) (enumerationOrder (pidsOf trace))"
    by (simp add: split_discovered discovered_def forInOrder_keys)
  from ok obtain ps where
    ps: "buildProcesses A (map (\<lambda>p. (p, ?F p)) (enumerationOrder (pidsOf trace))) [] = Inr ps"
    and g: "g = \<lparr>groupName = ''chrometrace'', traceID = [], activeProfileIndex = 0,
               profiles = ps\<rparr>"
    by (auto simp: parseChromeTraceArrayFormat_def cs split: sum.splits)
  have "map Inr ps =
     map (\<lambda>(p, t). buildProfile A (showInt p) (showInt t) (bucket trace p t))
       (bucketOrder trace)"
    using buildProcesses_profiles [OF ps]
    by (simp add: bucketOrder_def forInOrder_keys map_concat o_def)
  moreover have "distinct (bucketOrder trace)"
    unfolding bucketOrder_def
    by (rule distinct_pairs) (simp_all add: distinct_enumerationOrder pidsOf_def tidsOf_def)
  moreover have "set (bucketOrder trace) =
      {(p, t). \<exists>e \<in> set trace. pid e = Some p \<and> tid e = Some t}"
    by (auto simp: bucketOrder_def set_pidsOf set_tidsOf)
  ultimately show ?thesis using g by simp
qed

theorem profiles_in_enumeration_order_witness:
  "parseChromeTraceArrayFormat sampleAccumulator outOfOrderTrace = Inr outOfOrderGroup \<and>
   groupName outOfOrderGroup = ''chrometrace'' \<and> traceID outOfOrderGroup = [] \<and>
   activeProfileIndex outOfOrderGroup = 0 \<and>
   map Inr (profiles outOfOrderGroup) =
     map (\<lambda>(p, t). buildProfile sampleAccumulator (showInt p) (showInt t)
                      (bucket outOfOrderTrace p t))
       (bucketOrder outOfOrderTrace) \<and>
   bucketOrder outOfOrderTrace = [(1, 1), (2, 1)]"
proof -
  have h: "parseChromeTraceArrayFormat sampleAccumulator outOfOrderTrace = Inr outOfOrderGroup"
    by code_simp
  have b: "bucketOrder outOfOrderTrace = [(1, 1), (2, 1)]"
    by code_simp
  show ?thesis using profiles_in_enumeration_order [OF h] h b by blast
qed

end
